theory Spec2Isabelle
  imports Main "HOL-Library.Sublist" "HOL-Library.Multiset"
begin

section \<open>WordleBot: the candidate filter and the game loop\<close>

text \<open>
  A shallow embedding of \<^verbatim>\<open>WordleBot.py\<close>. Python strings are \<open>string\<close>; a list of
  characters in which consumed entries are overwritten with \<^verbatim>\<open>None\<close> is a
  \<open>char option list\<close>; an exception is the \<open>Inl\<close> side of a sum. The loops
  \<^verbatim>\<open>for i in range(WORD_LENGTH)\<close> recurse over the index list \<open>[0..<WORD_LENGTH]\<close>.
\<close>

subsection \<open>Constants\<close>

definition WORD_LENGTH :: nat where
  "WORD_LENGTH = 5"

definition MAX_ATTEMPTS :: int where
  "MAX_ATTEMPTS = 6"

definition OPTIMAL_FIRST_GUESS :: string where
  "OPTIMAL_FIRST_GUESS = ''salet''"

subsection \<open>Exceptions and early returns\<close>

datatype py_error = IndexError | ValueError | TypeError

text \<open>
  What one pass of \<^verbatim>\<open>_is_word_still_possible\<close> does: it raises, it leaves the function
  with \<^verbatim>\<open>return b\<close>, or it falls through to the next pass with its lists.
\<close>

datatype 'a flow = Raised py_error | Returned bool | Proceed 'a

type_synonym cells = "char option list"

subsection \<open>The three passes\<close>

text \<open>
  \<^verbatim>\<open>
  for i in range(WORD_LENGTH):
      if feedback[i] == 'G':
          if word_chars[i] != guess_chars[i]:
              return False
          word_chars[i] = None
          guess_chars[i] = None
  \<close>
\<close>

fun green_pass :: "nat list \<Rightarrow> string \<Rightarrow> cells \<Rightarrow> cells \<Rightarrow> (cells \<times> cells) flow" where
  "green_pass [] feedback word_chars guess_chars = Proceed (word_chars, guess_chars)"
| "green_pass (i # rest) feedback word_chars guess_chars =
     (if length feedback \<le> i then Raised IndexError
      else if feedback ! i = CHR ''G'' then
        (if length word_chars \<le> i \<or> length guess_chars \<le> i then Raised IndexError
         else if word_chars ! i \<noteq> guess_chars ! i then Returned False
         else green_pass rest feedback (word_chars[i := None]) (guess_chars[i := None]))
      else green_pass rest feedback word_chars guess_chars)"

text \<open>\<^verbatim>\<open>list.index(x)\<close>: the position of the first element equal to \<open>x\<close>, or ValueError.\<close>

fun py_index :: "'a list \<Rightarrow> 'a \<Rightarrow> py_error + nat" where
  "py_index [] x = Inl ValueError"
| "py_index (y # ys) x =
     (if y = x then Inr 0
      else (case py_index ys x of Inl e \<Rightarrow> Inl e | Inr k \<Rightarrow> Inr (Suc k)))"

text \<open>
  \<^verbatim>\<open>
  for i in range(WORD_LENGTH):
      if feedback[i] == 'Y':
          if word_chars[i] == guess_chars[i]:
              return False
          if guess_chars[i] not in word_chars:
              return False
          word_chars[word_chars.index(guess_chars[i])] = None
  \<close>
\<close>

fun yellow_pass :: "nat list \<Rightarrow> string \<Rightarrow> cells \<Rightarrow> cells \<Rightarrow> cells flow" where
  "yellow_pass [] feedback word_chars guess_chars = Proceed word_chars"
| "yellow_pass (i # rest) feedback word_chars guess_chars =
     (if length feedback \<le> i then Raised IndexError
      else if feedback ! i = CHR ''Y'' then
        (if length word_chars \<le> i \<or> length guess_chars \<le> i then Raised IndexError
         else if word_chars ! i = guess_chars ! i then Returned False
         else if guess_chars ! i \<notin> set word_chars then Returned False
         else (case py_index word_chars (guess_chars ! i) of
                 Inl e \<Rightarrow> Raised e
               | Inr k \<Rightarrow> yellow_pass rest feedback (word_chars[k := None]) guess_chars))
      else yellow_pass rest feedback word_chars guess_chars)"

text \<open>
  \<^verbatim>\<open>
  for i in range(WORD_LENGTH):
      if feedback[i] == 'R':
          if guess_chars[i] in word_chars:
              return False
  \<close>
\<close>

fun grey_pass :: "nat list \<Rightarrow> string \<Rightarrow> cells \<Rightarrow> cells \<Rightarrow> unit flow" where
  "grey_pass [] feedback word_chars guess_chars = Proceed ()"
| "grey_pass (i # rest) feedback word_chars guess_chars =
     (if length feedback \<le> i then Raised IndexError
      else if feedback ! i = CHR ''R'' then
        (if length guess_chars \<le> i then Raised IndexError
         else if guess_chars ! i \<in> set word_chars then Returned False
         else grey_pass rest feedback word_chars guess_chars)
      else grey_pass rest feedback word_chars guess_chars)"

subsection \<open>The consistency check\<close>

definition is_word_still_possible :: "string \<Rightarrow> string \<Rightarrow> string \<Rightarrow> py_error + bool" where
  "is_word_still_possible word guess feedback =
     (if word = guess then Inr False
      else
        (case green_pass [0..<WORD_LENGTH] feedback (map Some word) (map Some guess) of
           Raised e \<Rightarrow> Inl e
         | Returned b \<Rightarrow> Inr b
         | Proceed (word_chars, guess_chars) \<Rightarrow>
             (case yellow_pass [0..<WORD_LENGTH] feedback word_chars guess_chars of
                Raised e \<Rightarrow> Inl e
              | Returned b \<Rightarrow> Inr b
              | Proceed word_chars' \<Rightarrow>
                  (case grey_pass [0..<WORD_LENGTH] feedback word_chars' guess_chars of
                     Raised e \<Rightarrow> Inl e
                   | Returned b \<Rightarrow> Inr b
                   | Proceed u \<Rightarrow> Inr True))))"

subsection \<open>The reference scoring\<close>

text \<open>
  The scoring of a guess against a secret word, in the words of the specification: the
  positions where guess and secret agree are Green; the letters of the secret at the other
  positions form the remaining multiset; going left to right over the other positions, a
  guess letter found in the remaining multiset is Yellow and takes one occurrence out of
  it, any other is Grey. This definition is not taken from the program: it is what the
  consistency check is compared with.
\<close>

fun assign_yellows :: "(char \<times> char) list \<Rightarrow> char multiset \<Rightarrow> string" where
  "assign_yellows [] pool = []"
| "assign_yellows ((g, s) # rest) pool =
     (if g = s then CHR ''G'' # assign_yellows rest pool
      else if g \<in># pool then CHR ''Y'' # assign_yellows rest (pool - {#g#})
      else CHR ''R'' # assign_yellows rest pool)"

definition reference_score :: "string \<Rightarrow> string \<Rightarrow> string" where
  "reference_score guess secret =
     assign_yellows (zip guess secret)
       (mset (map snd (filter (\<lambda>(g, s). g \<noteq> s) (zip guess secret))))"


subsection \<open>The bot and the scoring service\<close>

datatype status = PLAYING | WON | LOST | ERROR

text \<open>
  The fields of a \<^verbatim>\<open>WordleBot\<close>. \<open>last_feedback\<close> is what the service answered last:
  a string, or \<^verbatim>\<open>None\<close> when the answer had no feedback. \<open>guesses_sent\<close> is not a field
  of the Python object: it records, in order, every word handed to \<^verbatim>\<open>WordleAPI.guess\<close>,
  which is the only effect of the loop on the outside.
\<close>

record bot =
  player_id :: string
  possible_words :: "string list"
  current_guess :: string
  attempt_number :: int
  game_status :: status
  last_feedback :: "string option"
  guesses_sent :: "string list"

text \<open>
  \<^verbatim>\<open>WordleAPI.guess(player_id, guess_word)\<close> asks a remote service, so its answer is a
  parameter of the model: a function of the words sent so far, the player and the word,
  that either raises \<^verbatim>\<open>WordleAPIError\<close> or returns the feedback of the response
  (\<^verbatim>\<open>response_data.get("feedback")\<close>, which is \<^verbatim>\<open>None\<close> when the key is missing).
\<close>

datatype api_reply = WordleAPIError | Feedback "string option"

type_synonym guess_api = "string list \<Rightarrow> string \<Rightarrow> string \<Rightarrow> api_reply"

text \<open>\<^verbatim>\<open>__init__\<close>; the word list read from the file is the argument \<open>words\<close>.\<close>

definition init_bot :: "string \<Rightarrow> string list \<Rightarrow> bot" where
  "init_bot pid words =
     \<lparr>player_id = pid, possible_words = words, current_guess = OPTIMAL_FIRST_GUESS,
      attempt_number = 0, game_status = PLAYING, last_feedback = Some [],
      guesses_sent = []\<rparr>"

subsection \<open>Filtering the candidates\<close>

text \<open>
  The call \<^verbatim>\<open>_is_word_still_possible(word, self.current_guess, self.last_feedback)\<close>.
  When the feedback is \<^verbatim>\<open>None\<close> the comparison of the two words still comes first, and
  \<^verbatim>\<open>feedback[0]\<close> then raises TypeError.
\<close>

definition possible_given :: "string \<Rightarrow> string \<Rightarrow> string option \<Rightarrow> py_error + bool" where
  "possible_given word guess feedback =
     (case feedback of
        Some f \<Rightarrow> is_word_still_possible word guess f
      | None \<Rightarrow> if word = guess then Inr False else Inl TypeError)"

text \<open>
  The list comprehension
  \<^verbatim>\<open>[word for word in self.possible_words if self._is_word_still_possible(...)]\<close>:
  the words are tested in order and the first exception ends the comprehension.
\<close>

fun keep_possible :: "string list \<Rightarrow> string \<Rightarrow> string option \<Rightarrow> py_error + string list" where
  "keep_possible [] guess feedback = Inr []"
| "keep_possible (word # ws) guess feedback =
     (case possible_given word guess feedback of
        Inl e \<Rightarrow> Inl e
      | Inr b \<Rightarrow>
          (case keep_possible ws guess feedback of
             Inl e \<Rightarrow> Inl e
           | Inr kept \<Rightarrow> Inr (if b then word # kept else kept)))"

definition filter_possible_words :: "bot \<Rightarrow> py_error + bot" where
  "filter_possible_words s =
     (case keep_possible (possible_words s) (current_guess s) (last_feedback s) of
        Inl e \<Rightarrow> Inl e
      | Inr kept \<Rightarrow> Inr (s\<lparr>possible_words := kept\<rparr>))"

subsection \<open>One guess\<close>

text \<open>
  \<^verbatim>\<open>
  if not self.current_guess:
      self.game_status = "LOST"; return
  try:
      self.last_feedback = WordleAPI.guess(self.player_id, self.current_guess)
      if not self.last_feedback or len(self.last_feedback) != WORD_LENGTH:
          self.game_status = "ERROR"; return
      if self.last_feedback == "G" * WORD_LENGTH:
          self.game_status = "WON"
  except WordleAPIError:
      self.game_status = "ERROR"
  \<close>
\<close>

definition make_guess :: "guess_api \<Rightarrow> bot \<Rightarrow> bot" where
  "make_guess api s =
     (if current_guess s = [] then s\<lparr>game_status := LOST\<rparr>
      else
        (case api (guesses_sent s) (player_id s) (current_guess s) of
           WordleAPIError \<Rightarrow>
             s\<lparr>guesses_sent := guesses_sent s @ [current_guess s], game_status := ERROR\<rparr>
         | Feedback fb \<Rightarrow>
             (let s1 = s\<lparr>guesses_sent := guesses_sent s @ [current_guess s],
                          last_feedback := fb\<rparr>
              in if fb = None \<or> fb = Some [] \<or> length (the fb) \<noteq> WORD_LENGTH
                 then s1\<lparr>game_status := ERROR\<rparr>
                 else if fb = Some (replicate WORD_LENGTH (CHR ''G''))
                 then s1\<lparr>game_status := WON\<rparr>
                 else s1)))"

subsection \<open>The game loop\<close>

text \<open>
  \<^verbatim>\<open>
  while self.game_status == "PLAYING" and self.attempt_number < MAX_ATTEMPTS:
      self.make_guess()
      if self.game_status != "PLAYING":
          break
      self.filter_possible_words()
      if not self.possible_words:
          self.game_status = "LOST"
          break
      self.current_guess = self.possible_words[0]
      self.attempt_number += 1
  \<close>
  The printing is left out. An exception of the filter leaves the loop and the function.
  The loop ends because every full round adds one to \<open>attempt_number\<close>.
\<close>

function start_game :: "guess_api \<Rightarrow> bot \<Rightarrow> py_error + bot" where
  "start_game api s =
     (if game_status s = PLAYING \<and> attempt_number s < MAX_ATTEMPTS then
        (let s1 = make_guess api s in
         if game_status s1 \<noteq> PLAYING then Inr s1
         else
           (case filter_possible_words s1 of
              Inl e \<Rightarrow> Inl e
            | Inr s2 \<Rightarrow>
                if possible_words s2 = [] then Inr (s2\<lparr>game_status := LOST\<rparr>)
                else start_game api
                       (s2\<lparr>current_guess := hd (possible_words s2),
                           attempt_number := attempt_number s2 + 1\<rparr>)))
      else Inr s)"
  by pat_completeness auto
termination
proof (relation "measure (\<lambda>(api, s). nat (MAX_ATTEMPTS - attempt_number s))")
  show "wf (measure (\<lambda>(api, s). nat (MAX_ATTEMPTS - attempt_number s)))"
    by simp
next
  fix api :: guess_api and s s1 s2 :: bot
  assume guard: "game_status s = PLAYING \<and> attempt_number s < MAX_ATTEMPTS"
    and s1: "s1 = make_guess api s"
    and s2: "filter_possible_words s1 = Inr s2"
  have "attempt_number s1 = attempt_number s"
    unfolding s1 make_guess_def by (simp add: Let_def split: api_reply.splits)
  moreover have "attempt_number s2 = attempt_number s1"
    using s2 unfolding filter_possible_words_def by (auto split: sum.splits)
  ultimately show
    "((api, s2\<lparr>current_guess := hd (possible_words s2),
                 attempt_number := attempt_number s2 + 1\<rparr>), (api, s))
     \<in> measure (\<lambda>(api, s). nat (MAX_ATTEMPTS - attempt_number s))"
    using guard by simp
qed

declare start_game.simps [simp del]

text \<open>
  The same loop statement by statement, to speak about every state the loop passes
  through and not only the one it ends in: \<open>visits api s0 p s\<close> holds when a run that
  starts in \<open>s0\<close> is at program point \<open>p\<close> in state \<open>s\<close>.
\<close>

datatype point = AtLoopHead | AfterGuess | AfterFilter | AfterPick | Finished

inductive visits :: "guess_api \<Rightarrow> bot \<Rightarrow> point \<Rightarrow> bot \<Rightarrow> bool"
  for api :: guess_api and s0 :: bot where
  at_start: "visits api s0 AtLoopHead s0"
| guard_fails:
    "visits api s0 AtLoopHead s \<Longrightarrow>
     \<not> (game_status s = PLAYING \<and> attempt_number s < MAX_ATTEMPTS) \<Longrightarrow>
     visits api s0 Finished s"
| guess_made:
    "visits api s0 AtLoopHead s \<Longrightarrow>
     game_status s = PLAYING \<and> attempt_number s < MAX_ATTEMPTS \<Longrightarrow>
     visits api s0 AfterGuess (make_guess api s)"
| break_not_playing:
    "visits api s0 AfterGuess s \<Longrightarrow> game_status s \<noteq> PLAYING \<Longrightarrow>
     visits api s0 Finished s"
| filtered:
    "visits api s0 AfterGuess s \<Longrightarrow> game_status s = PLAYING \<Longrightarrow>
     filter_possible_words s = Inr s' \<Longrightarrow>
     visits api s0 AfterFilter s'"
| break_stumped:
    "visits api s0 AfterFilter s \<Longrightarrow> possible_words s = [] \<Longrightarrow>
     visits api s0 Finished (s\<lparr>game_status := LOST\<rparr>)"
| picked:
    "visits api s0 AfterFilter s \<Longrightarrow> possible_words s \<noteq> [] \<Longrightarrow>
     visits api s0 AfterPick (s\<lparr>current_guess := hd (possible_words s)\<rparr>)"
| incremented:
    "visits api s0 AfterPick s \<Longrightarrow>
     visits api s0 AtLoopHead (s\<lparr>attempt_number := attempt_number s + 1\<rparr>)"

subsection \<open>The letters still available\<close>

text \<open>The letters of a character list that have not been overwritten with \<^verbatim>\<open>None\<close>.\<close>

fun live :: "cells \<Rightarrow> char multiset" where
  "live [] = {#}"
| "live (None # cs) = live cs"
| "live (Some c # cs) = add_mset c (live cs)"

section \<open>Lemmas about the program\<close>

subsection \<open>The passes never fail on words of the right length\<close>

lemma range_WORD_LENGTH: "[0..<WORD_LENGTH] = [0, 1, 2, 3, 4]"
  by (simp add: WORD_LENGTH_def upt_rec)

lemma py_index_mem:
  "x \<in> set xs \<Longrightarrow> \<exists>k. py_index xs x = Inr k \<and> k < length xs \<and> xs ! k = x"
proof (induction xs)
  case Nil
  then show ?case by simp
next
  case (Cons y ys)
  show ?case
  proof (cases "y = x")
    case True
    then show ?thesis by simp
  next
    case False
    with Cons.prems have "x \<in> set ys" by simp
    then obtain k where "py_index ys x = Inr k" "k < length ys" "ys ! k = x"
      using Cons.IH by blast
    with False show ?thesis by simp
  qed
qed

lemma green_pass_no_ValueError: "green_pass idxs fb wc gc \<noteq> Raised ValueError"
  by (induction idxs arbitrary: wc gc) auto

lemma yellow_pass_no_ValueError: "yellow_pass idxs fb wc gc \<noteq> Raised ValueError"
proof (induction idxs arbitrary: wc)
  case Nil
  then show ?case by simp
next
  case (Cons i rest)
  show ?case
  proof (cases "gc ! i \<in> set wc")
    case True
    then obtain k where "py_index wc (gc ! i) = Inr k"
      using py_index_mem by fastforce
    then show ?thesis using Cons.IH by simp
  next
    case False
    then show ?thesis using Cons.IH by simp
  qed
qed

lemma grey_pass_no_ValueError: "grey_pass idxs fb wc gc \<noteq> Raised ValueError"
  by (induction idxs) auto

lemma green_pass_length:
  "green_pass idxs fb wc gc = Proceed (wc', gc') \<Longrightarrow> length wc' = length wc \<and> length gc' = length gc"
  by (induction idxs arbitrary: wc gc) (auto split: if_splits)

lemma yellow_pass_length:
  "yellow_pass idxs fb wc gc = Proceed wc' \<Longrightarrow> length wc' = length wc"
  by (induction idxs arbitrary: wc) (auto split: if_splits sum.splits)

lemma green_pass_in_range:
  "\<forall>i\<in>set idxs. i < length fb \<and> i < length wc \<and> i < length gc \<Longrightarrow>
   green_pass idxs fb wc gc \<noteq> Raised e"
  by (induction idxs arbitrary: wc gc) auto

lemma yellow_pass_in_range:
  "\<forall>i\<in>set idxs. i < length fb \<and> i < length wc \<and> i < length gc \<Longrightarrow>
   yellow_pass idxs fb wc gc \<noteq> Raised e"
proof (induction idxs arbitrary: wc)
  case Nil
  then show ?case by simp
next
  case (Cons i rest)
  show ?case
  proof (cases "gc ! i \<in> set wc")
    case True
    then obtain k where "py_index wc (gc ! i) = Inr k"
      using py_index_mem by fastforce
    then show ?thesis using Cons.IH [of "wc[k := None]"] Cons.IH [of wc] Cons.prems by simp
  next
    case False
    then show ?thesis using Cons.IH [of wc] Cons.prems by simp
  qed
qed

lemma grey_pass_in_range:
  "\<forall>i\<in>set idxs. i < length fb \<and> i < length gc \<Longrightarrow>
   grey_pass idxs fb wc gc \<noteq> Raised e"
  by (induction idxs) auto

lemma no_ValueError: "is_word_still_possible word guess feedback \<noteq> Inl ValueError"
  using green_pass_no_ValueError yellow_pass_no_ValueError grey_pass_no_ValueError
  by (auto simp: is_word_still_possible_def split: flow.splits)

lemma total_on_length_5:
  assumes "length word = WORD_LENGTH" "length guess = WORD_LENGTH" "length feedback = WORD_LENGTH"
  shows "\<exists>b. is_word_still_possible word guess feedback = Inr b"
proof (cases "word = guess")
  case True
  then have "is_word_still_possible word guess feedback = Inr False"
    by (simp add: is_word_still_possible_def)
  then show ?thesis by blast
next
  case False
  have g: "green_pass [0..<WORD_LENGTH] feedback (map Some word) (map Some guess) \<noteq> Raised e" for e
    using assms by (intro green_pass_in_range) simp
  show ?thesis
  proof (cases "green_pass [0..<WORD_LENGTH] feedback (map Some word) (map Some guess)")
    case (Raised e)
    then show ?thesis using g by simp
  next
    case (Returned b)
    then show ?thesis using False by (simp add: is_word_still_possible_def)
  next
    case (Proceed p)
    obtain wc gc where p: "p = (wc, gc)" by (cases p)
    have len: "length wc = WORD_LENGTH" "length gc = WORD_LENGTH"
      using green_pass_length [of _ feedback "map Some word" "map Some guess" wc gc] Proceed p assms
      by auto
    have y: "yellow_pass [0..<WORD_LENGTH] feedback wc gc \<noteq> Raised e" for e
      using assms len by (intro yellow_pass_in_range) simp
    show ?thesis
    proof (cases "yellow_pass [0..<WORD_LENGTH] feedback wc gc")
      case (Raised e)
      then show ?thesis using y by simp
    next
      case (Returned b)
      then show ?thesis using False Proceed p by (simp add: is_word_still_possible_def)
    next
      case yp: (Proceed wc')
      have r: "grey_pass [0..<WORD_LENGTH] feedback wc' gc \<noteq> Raised e" for e
        using assms len by (intro grey_pass_in_range) simp
      show ?thesis
        using False Proceed p yp r
        by (cases "grey_pass [0..<WORD_LENGTH] feedback wc' gc")
           (auto simp: is_word_still_possible_def)
    qed
  qed
qed

subsection \<open>The passes in closed form\<close>

lemma live_mem: "c \<in># live wc \<longleftrightarrow> Some c \<in> set wc"
  by (induction wc rule: live.induct) auto

lemma py_index_Inr:
  "py_index xs x = Inr k \<Longrightarrow> k < length xs \<and> xs ! k = x"
proof (induction xs arbitrary: k)
  case Nil
  then show ?case by simp
next
  case (Cons y ys)
  show ?case
  proof (cases "y = x")
    case True
    with Cons.prems show ?thesis by simp
  next
    case False
    with Cons.prems obtain k' where "py_index ys x = Inr k'" "k = Suc k'"
      by (auto split: sum.splits)
    with Cons.IH [of k'] show ?thesis by simp
  qed
qed

lemma live_consume:
  "py_index wc (Some c) = Inr k \<Longrightarrow> live (wc[k := None]) = live wc - {#c#}"
proof (induction wc arbitrary: k rule: live.induct)
  case 1
  then show ?case by simp
next
  case (2 cs)
  then obtain k' where k': "py_index cs (Some c) = Inr k'" "k = Suc k'"
    by (auto split: sum.splits)
  with "2.IH" [of k'] show ?case by simp
next
  case (3 d cs)
  show ?case
  proof (cases "d = c")
    case True
    with "3.prems" have "k = 0" by simp
    with True show ?thesis by simp
  next
    case False
    with "3.prems" obtain k' where k': "py_index cs (Some c) = Inr k'" "k = Suc k'"
      by (auto split: sum.splits)
    have "add_mset d (live cs) - {#c#} = add_mset d (live cs - {#c#})"
      using False by (simp add: diff_add_mset_swap)
    with "3.IH" [of k'] k' show ?thesis by simp
  qed
qed

lemma green_pass_eq:
  assumes "\<forall>i\<in>set idxs. i < length fb \<and> i < length wc \<and> i < length gc"
  shows "green_pass idxs fb wc gc =
     (if \<forall>i\<in>set idxs. fb ! i = CHR ''G'' \<longrightarrow> wc ! i = gc ! i
      then Proceed
        (map (\<lambda>i. if i \<in> set idxs \<and> fb ! i = CHR ''G'' then None else wc ! i) [0..<length wc],
         map (\<lambda>i. if i \<in> set idxs \<and> fb ! i = CHR ''G'' then None else gc ! i) [0..<length gc])
      else Returned False)"
  using assms
proof (induction idxs arbitrary: wc gc)
  case Nil
  show ?case by (simp add: map_nth)
next
  case (Cons i rest)
  from Cons.prems have i: "i < length fb" "i < length wc" "i < length gc"
    and rest: "\<forall>j\<in>set rest. j < length fb \<and> j < length wc \<and> j < length gc"
    by simp_all
  show ?case
  proof (cases "fb ! i = CHR ''G''")
    case False
    have "(\<lambda>j. if j \<in> set (i # rest) \<and> fb ! j = CHR ''G'' then None else xs ! j) =
          (\<lambda>j. if j \<in> set rest \<and> fb ! j = CHR ''G'' then None else xs ! j)" for xs :: cells
      using False by auto
    then show ?thesis using False i Cons.IH [OF rest] by simp
  next
    case True
    show ?thesis
    proof (cases "wc ! i = gc ! i")
      case False
      with True i show ?thesis by simp
    next
      case eq: True
      have rest': "\<forall>j\<in>set rest. j < length fb \<and> j < length (wc[i := None]) \<and> j < length (gc[i := None])"
        using rest by simp
      have cond: "(\<forall>j\<in>set rest. fb ! j = CHR ''G'' \<longrightarrow> wc[i := None] ! j = gc[i := None] ! j) \<longleftrightarrow>
                  (\<forall>j\<in>set (i # rest). fb ! j = CHR ''G'' \<longrightarrow> wc ! j = gc ! j)"
        using eq i by (auto simp: nth_list_update)
      have upd: "map (\<lambda>j. if j \<in> set rest \<and> fb ! j = CHR ''G'' then None else xs[i := None] ! j) [0..<length xs] =
                 map (\<lambda>j. if j \<in> set (i # rest) \<and> fb ! j = CHR ''G'' then None else xs ! j) [0..<length xs]"
        for xs :: cells
      proof (rule map_cong [OF refl])
        fix j assume "j \<in> set [0..<length xs]"
        then have "j < length xs" by simp
        then show "(if j \<in> set rest \<and> fb ! j = CHR ''G'' then None else xs[i := None] ! j) =
              (if j \<in> set (i # rest) \<and> fb ! j = CHR ''G'' then None else xs ! j)"
          using True by (cases "j = i") (auto simp: nth_list_update)
      qed
      have "green_pass (i # rest) fb wc gc = green_pass rest fb (wc[i := None]) (gc[i := None])"
        using True eq i by simp
      also have "\<dots> = (if \<forall>j\<in>set rest. fb ! j = CHR ''G'' \<longrightarrow> wc[i := None] ! j = gc[i := None] ! j
          then Proceed
            (map (\<lambda>j. if j \<in> set rest \<and> fb ! j = CHR ''G'' then None else wc[i := None] ! j) [0..<length wc],
             map (\<lambda>j. if j \<in> set rest \<and> fb ! j = CHR ''G'' then None else gc[i := None] ! j) [0..<length gc])
          else Returned False)"
        using Cons.IH [OF rest'] by simp
      finally show ?thesis
        unfolding cond upd [of wc] upd [of gc] .
    qed
  qed
qed

lemma grey_pass_eq:
  assumes "\<forall>i\<in>set idxs. i < length fb \<and> i < length gc"
  shows "grey_pass idxs fb wc gc =
     (if \<exists>i\<in>set idxs. fb ! i = CHR ''R'' \<and> gc ! i \<in> set wc then Returned False else Proceed ())"
  using assms by (induction idxs) auto

lemma yellow_pass_not_True: "yellow_pass idxs fb wc gc \<noteq> Returned True"
proof (induction idxs arbitrary: wc)
  case Nil
  then show ?case by simp
next
  case (Cons i rest)
  show ?case
  proof (cases "gc ! i \<in> set wc")
    case True
    then obtain k where "py_index wc (gc ! i) = Inr k"
      using py_index_mem by fastforce
    then show ?thesis using Cons.IH [of "wc[k := None]"] Cons.IH [of wc] by simp
  next
    case False
    then show ?thesis using Cons.IH [of wc] by simp
  qed
qed

lemma length_assign_yellows [simp]: "length (assign_yellows ps pool) = length ps"
  by (induction ps pool rule: assign_yellows.induct) auto

lemma assign_yellows_green:
  "i < length ps \<Longrightarrow> assign_yellows ps pool ! i = CHR ''G'' \<longleftrightarrow> fst (ps ! i) = snd (ps ! i)"
proof (induction ps pool arbitrary: i rule: assign_yellows.induct)
  case (1 pool)
  then show ?case by simp
next
  case (2 g s rest pool)
  then show ?case by (cases i) auto
qed

lemma assign_yellows_symbols:
  "set (assign_yellows ps pool) \<subseteq> {CHR ''G'', CHR ''Y'', CHR ''R''}"
  by (induction ps pool rule: assign_yellows.induct) auto

lemma live_after_green:
  "live (map (\<lambda>(g, s). if g = s then None else Some s) ps) =
   mset (map snd (filter (\<lambda>(g, s). g \<noteq> s) ps))"
  by (induction ps) auto

subsection \<open>The Yellow pass against the reference scoring\<close>

lemma yellow_step_Y:
  assumes "i < length fb" "i < length wc" "i < length gc" "fb ! i = CHR ''Y''"
    and "gc ! i = Some c" "wc ! i \<noteq> Some c" "c \<in># live wc"
  shows "\<exists>k. py_index wc (Some c) = Inr k \<and>
           yellow_pass (i # rest) fb wc gc = yellow_pass rest fb (wc[k := None]) gc"
proof -
  have "Some c \<in> set wc" using assms(7) by (simp add: live_mem)
  then obtain k where k: "py_index wc (Some c) = Inr k"
    using py_index_mem by fastforce
  then show ?thesis using assms \<open>Some c \<in> set wc\<close> by simp
qed

lemma yellow_forward:
  assumes len: "length fb = n" "length gc = n" "length word = n" "length guess = n"
    and gc: "\<forall>i<n. fb ! i = CHR ''Y'' \<longrightarrow> gc ! i = Some (guess ! i)"
  shows "k \<le> n \<Longrightarrow> length wc = n \<Longrightarrow>
     (\<forall>i<n. wc ! i = None \<or> wc ! i = Some (word ! i)) \<Longrightarrow>
     assign_yellows (drop k (zip guess word)) (live wc) = drop k fb \<Longrightarrow>
     \<exists>wc'. yellow_pass [k..<n] fb wc gc = Proceed wc' \<and> live wc' \<subseteq># live wc \<and>
       (\<forall>i. k \<le> i \<and> i < n \<and> fb ! i = CHR ''R'' \<longrightarrow> guess ! i \<notin># live wc')"
proof (induction "n - k" arbitrary: k wc)
  case 0
  then have "k = n" by simp
  then show ?case by auto
next
  case (Suc m)
  then have kn: "k < n" and m: "m = n - Suc k" by simp_all
  have idx: "[k..<n] = k # [Suc k..<n]" using kn by (rule upt_conv_Cons)
  have dz: "drop k (zip guess word) = (guess ! k, word ! k) # drop (Suc k) (zip guess word)"
    using kn len by (simp add: Cons_nth_drop_Suc [symmetric])
  have df: "drop k fb = fb ! k # drop (Suc k) fb"
    using kn len by (simp add: Cons_nth_drop_Suc [symmetric])
  note score = Suc.prems(4) [unfolded dz df]
  have wk: "wc ! k = None \<or> wc ! k = Some (word ! k)" using Suc.prems(3) kn by simp
  show ?case
  proof (cases "guess ! k = word ! k")
    case True
    with score have fk: "fb ! k = CHR ''G''"
      and rest: "assign_yellows (drop (Suc k) (zip guess word)) (live wc) = drop (Suc k) fb"
      by simp_all
    from Suc.hyps(1) [OF m _ Suc.prems(2,3) rest] kn
    obtain wc' where w: "yellow_pass [Suc k..<n] fb wc gc = Proceed wc'" "live wc' \<subseteq># live wc"
      "\<forall>i. Suc k \<le> i \<and> i < n \<and> fb ! i = CHR ''R'' \<longrightarrow> guess ! i \<notin># live wc'"
      by auto
    have "yellow_pass [k..<n] fb wc gc = Proceed wc'"
      using w(1) fk kn len unfolding idx by simp
    moreover have "\<forall>i. k \<le> i \<and> i < n \<and> fb ! i = CHR ''R'' \<longrightarrow> guess ! i \<notin># live wc'"
    proof (intro allI impI)
      fix i assume a: "k \<le> i \<and> i < n \<and> fb ! i = CHR ''R''"
      with fk have "i \<noteq> k" by auto
      with a w(3) show "guess ! i \<notin># live wc'" by (simp add: Suc_le_eq)
    qed
    ultimately show ?thesis using w(2) by blast
  next
    case neq: False
    show ?thesis
    proof (cases "guess ! k \<in># live wc")
      case True
      with neq score have fk: "fb ! k = CHR ''Y''"
        and rest: "assign_yellows (drop (Suc k) (zip guess word)) (live wc - {#guess ! k#}) = drop (Suc k) fb"
        by simp_all
      have gk: "gc ! k = Some (guess ! k)" using gc kn fk by simp
      have "wc ! k \<noteq> Some (guess ! k)" using wk neq by auto
      with yellow_step_Y [of k fb wc gc "guess ! k" "[Suc k..<n]"] fk gk True kn len Suc.prems(2)
      obtain j where j: "py_index wc (Some (guess ! k)) = Inr j"
        "yellow_pass (k # [Suc k..<n]) fb wc gc = yellow_pass [Suc k..<n] fb (wc[j := None]) gc"
        by auto
      have lv: "live (wc[j := None]) = live wc - {#guess ! k#}"
        using j(1) by (rule live_consume)
      have inv: "\<forall>i<n. wc[j := None] ! i = None \<or> wc[j := None] ! i = Some (word ! i)"
      proof (intro allI impI)
        fix i assume "i < n"
        with Suc.prems(2,3) show "wc[j := None] ! i = None \<or> wc[j := None] ! i = Some (word ! i)"
          by (cases "i = j") simp_all
      qed
      have len': "length (wc[j := None]) = n" using Suc.prems(2) by simp
      from Suc.hyps(1) [OF m _ len' inv rest [folded lv]] kn
      obtain wc' where w: "yellow_pass [Suc k..<n] fb (wc[j := None]) gc = Proceed wc'"
        "live wc' \<subseteq># live (wc[j := None])"
        "\<forall>i. Suc k \<le> i \<and> i < n \<and> fb ! i = CHR ''R'' \<longrightarrow> guess ! i \<notin># live wc'"
        by auto
      have "yellow_pass [k..<n] fb wc gc = Proceed wc'"
        using w(1) j(2) unfolding idx by simp
      moreover have "live wc' \<subseteq># live wc"
        using w(2) unfolding lv by (rule subset_mset.order_trans) simp
      moreover have "\<forall>i. k \<le> i \<and> i < n \<and> fb ! i = CHR ''R'' \<longrightarrow> guess ! i \<notin># live wc'"
      proof (intro allI impI)
        fix i assume a: "k \<le> i \<and> i < n \<and> fb ! i = CHR ''R''"
        with fk have "i \<noteq> k" by auto
        with a w(3) show "guess ! i \<notin># live wc'" by (simp add: Suc_le_eq)
      qed
      ultimately show ?thesis by blast
    next
      case False
      with neq score have fk: "fb ! k = CHR ''R''"
        and rest: "assign_yellows (drop (Suc k) (zip guess word)) (live wc) = drop (Suc k) fb"
        by simp_all
      from Suc.hyps(1) [OF m _ Suc.prems(2,3) rest] kn
      obtain wc' where w: "yellow_pass [Suc k..<n] fb wc gc = Proceed wc'" "live wc' \<subseteq># live wc"
        "\<forall>i. Suc k \<le> i \<and> i < n \<and> fb ! i = CHR ''R'' \<longrightarrow> guess ! i \<notin># live wc'"
        by auto
      have "yellow_pass [k..<n] fb wc gc = Proceed wc'"
        using w(1) fk kn len unfolding idx by simp
      moreover have "\<forall>i. k \<le> i \<and> i < n \<and> fb ! i = CHR ''R'' \<longrightarrow> guess ! i \<notin># live wc'"
      proof (intro allI impI)
        fix i assume a: "k \<le> i \<and> i < n \<and> fb ! i = CHR ''R''"
        show "guess ! i \<notin># live wc'"
        proof (cases "i = k")
          case True
          with False w(2) show ?thesis by (auto dest: mset_subset_eqD)
        next
          case False
          with a w(3) show ?thesis by (simp add: Suc_le_eq)
        qed
      qed
      ultimately show ?thesis using w(2) by blast
    qed
  qed
qed

lemma yellow_keeps_other_letters:
  "yellow_pass idxs fb wc gc = Proceed wc' \<Longrightarrow>
   \<forall>j\<in>set idxs. fb ! j = CHR ''Y'' \<longrightarrow> (\<exists>d. gc ! j = Some d \<and> d \<noteq> c) \<Longrightarrow>
   count (live wc') c = count (live wc) c"
proof (induction idxs arbitrary: wc)
  case Nil
  then show ?case by simp
next
  case (Cons i rest)
  have restY: "\<forall>j\<in>set rest. fb ! j = CHR ''Y'' \<longrightarrow> (\<exists>d. gc ! j = Some d \<and> d \<noteq> c)"
    using Cons.prems(2) by simp
  show ?case
  proof (cases "fb ! i = CHR ''Y''")
    case False
    with Cons.prems(1) have "yellow_pass rest fb wc gc = Proceed wc'"
      by (simp split: if_splits)
    from Cons.IH [OF this restY] show ?thesis .
  next
    case True
    with Cons.prems(2) obtain d where d: "gc ! i = Some d" "d \<noteq> c" by auto
    from Cons.prems(1) True d obtain k where
      k: "py_index wc (Some d) = Inr k" and
      r: "yellow_pass rest fb (wc[k := None]) gc = Proceed wc'"
      by (auto split: if_splits sum.splits)
    have "count (live wc') c = count (live (wc[k := None])) c"
      using Cons.IH [OF r restY] .
    also have "\<dots> = count (live wc) c"
      using d(2) by (simp add: live_consume [OF k])
    finally show ?thesis .
  qed
qed

lemma yellow_converse:
  assumes len: "length fb = n" "length gc = n" "length word = n" "length guess = n"
    and gc: "\<forall>i<n. fb ! i \<noteq> CHR ''G'' \<longrightarrow> gc ! i = Some (guess ! i)"
    and sym: "\<forall>i<n. fb ! i = CHR ''G'' \<or> fb ! i = CHR ''Y'' \<or> fb ! i = CHR ''R''"
    and green: "\<forall>i<n. fb ! i = CHR ''G'' \<longleftrightarrow> guess ! i = word ! i"
    and ord: "\<forall>i j. i < j \<and> j < n \<and> fb ! i = CHR ''R'' \<and> fb ! j = CHR ''Y'' \<longrightarrow> guess ! i \<noteq> guess ! j"
  shows "k \<le> n \<Longrightarrow> length wc = n \<Longrightarrow>
     yellow_pass [k..<n] fb wc gc = Proceed wc' \<Longrightarrow>
     (\<forall>i. k \<le> i \<and> i < n \<and> fb ! i = CHR ''R'' \<longrightarrow> guess ! i \<notin># live wc') \<Longrightarrow>
     assign_yellows (drop k (zip guess word)) (live wc) = drop k fb"
proof (induction "n - k" arbitrary: k wc)
  case 0
  then have "k = n" by simp
  then show ?case using len by simp
next
  case (Suc m)
  then have kn: "k < n" and m: "m = n - Suc k" by simp_all
  have idx: "[k..<n] = k # [Suc k..<n]" using kn by (rule upt_conv_Cons)
  have dz: "drop k (zip guess word) = (guess ! k, word ! k) # drop (Suc k) (zip guess word)"
    using kn len by (simp add: Cons_nth_drop_Suc [symmetric])
  have df: "drop k fb = fb ! k # drop (Suc k) fb"
    using kn len by (simp add: Cons_nth_drop_Suc [symmetric])
  have later: "\<forall>i. Suc k \<le> i \<and> i < n \<and> fb ! i = CHR ''R'' \<longrightarrow> guess ! i \<notin># live wc'"
    using Suc.prems(4) by (simp add: Suc_le_eq)
  note run = Suc.prems(3) [unfolded idx]
  consider (G) "fb ! k = CHR ''G''" | (Y) "fb ! k = CHR ''Y''" | (R) "fb ! k = CHR ''R''"
    using sym kn by blast
  then show ?case
  proof cases
    case G
    then have eq: "guess ! k = word ! k" using green kn by simp
    from run G kn len have "yellow_pass [Suc k..<n] fb wc gc = Proceed wc'" by simp
    from Suc.hyps(1) [OF m _ Suc.prems(2) this later] kn
    have "assign_yellows (drop (Suc k) (zip guess word)) (live wc) = drop (Suc k) fb" by simp
    then show ?thesis unfolding dz df using G eq by simp
  next
    case Y
    then have neq: "guess ! k \<noteq> word ! k" using green kn by auto
    have gk: "gc ! k = Some (guess ! k)" using gc kn Y by simp
    from run Y gk obtain j where
      mem: "Some (guess ! k) \<in> set wc" and
      j: "py_index wc (Some (guess ! k)) = Inr j" and
      r: "yellow_pass [Suc k..<n] fb (wc[j := None]) gc = Proceed wc'"
      by (auto split: if_splits sum.splits)
    have lv: "live (wc[j := None]) = live wc - {#guess ! k#}"
      using j by (rule live_consume)
    have len': "length (wc[j := None]) = n" using Suc.prems(2) by simp
    from Suc.hyps(1) [OF m _ len' r later] kn
    have "assign_yellows (drop (Suc k) (zip guess word)) (live wc - {#guess ! k#}) = drop (Suc k) fb"
      unfolding lv by simp
    moreover have "guess ! k \<in># live wc" using mem by (simp add: live_mem)
    ultimately show ?thesis unfolding dz df using Y neq by simp
  next
    case R
    then have neq: "guess ! k \<noteq> word ! k" using green kn by auto
    from run R kn len have r: "yellow_pass [Suc k..<n] fb wc gc = Proceed wc'" by simp
    have "\<forall>j\<in>set [Suc k..<n]. fb ! j = CHR ''Y'' \<longrightarrow> (\<exists>d. gc ! j = Some d \<and> d \<noteq> guess ! k)"
    proof (intro ballI impI)
      fix j assume j: "j \<in> set [Suc k..<n]" and y: "fb ! j = CHR ''Y''"
      then have "k < j" "j < n" by simp_all
      with ord R y have "guess ! k \<noteq> guess ! j" by blast
      moreover have "gc ! j = Some (guess ! j)" using gc \<open>j < n\<close> y by simp
      ultimately show "\<exists>d. gc ! j = Some d \<and> d \<noteq> guess ! k" by auto
    qed
    from yellow_keeps_other_letters [OF r this]
    have "count (live wc') (guess ! k) = count (live wc) (guess ! k)" .
    moreover have "guess ! k \<notin># live wc'" using Suc.prems(4) kn R by simp
    ultimately have absent: "guess ! k \<notin># live wc"
      by (simp add: not_in_iff)
    from Suc.hyps(1) [OF m _ Suc.prems(2) r later] kn
    have "assign_yellows (drop (Suc k) (zip guess word)) (live wc) = drop (Suc k) fb" by simp
    then show ?thesis unfolding dz df using R neq absent by simp
  qed
qed

lemma cells_after_green:
  assumes "length fb = n" "length word = n" "length guess = n"
    and "\<forall>i<n. fb ! i = CHR ''G'' \<longleftrightarrow> guess ! i = word ! i"
  shows "map (\<lambda>i. if i \<in> set [0..<n] \<and> fb ! i = CHR ''G'' then None else map Some word ! i) [0..<n] =
         map (\<lambda>(g, s). if g = s then None else Some s) (zip guess word)"
  using assms by (intro nth_equalityI) auto

subsection \<open>The positional test of the Yellow pass\<close>

text \<open>
  A Yellow at a position where word and guess agree is rejected as long as no earlier
  Yellow position carries the same letter: only such an earlier Yellow can overwrite the
  cell that the test \<^verbatim>\<open>word_chars[i] == guess_chars[i]\<close> reads.
\<close>

lemma yellow_pass_append:
  "yellow_pass (xs @ ys) fb wc gc =
     (case yellow_pass xs fb wc gc of
        Raised e \<Rightarrow> Raised e
      | Returned b \<Rightarrow> Returned b
      | Proceed wc' \<Rightarrow> yellow_pass ys fb wc' gc)"
  by (induction xs arbitrary: wc) (simp_all split: sum.splits)

lemma yellow_pass_keeps_cell:
  "yellow_pass xs fb wc gc = Proceed wc' \<Longrightarrow>
   \<forall>j\<in>set xs. fb ! j = CHR ''Y'' \<longrightarrow> gc ! j \<noteq> wc ! i \<Longrightarrow>
   wc' ! i = wc ! i"
proof (induction xs arbitrary: wc)
  case Nil
  then show ?case by simp
next
  case (Cons j rest)
  show ?case
  proof (cases "fb ! j = CHR ''Y''")
    case False
    with Cons.prems(1) have "yellow_pass rest fb wc gc = Proceed wc'"
      by (simp split: if_splits)
    with Cons.IH [of wc] Cons.prems(2) show ?thesis by simp
  next
    case True
    with Cons.prems(1) obtain k where
      k: "py_index wc (gc ! j) = Inr k" and
      r: "yellow_pass rest fb (wc[k := None]) gc = Proceed wc'"
      by (auto split: if_splits sum.splits)
    from py_index_Inr [OF k] have "k < length wc" "wc ! k = gc ! j" by simp_all
    moreover have "gc ! j \<noteq> wc ! i" using Cons.prems(2) True by simp
    ultimately have "k \<noteq> i" by auto
    then have same: "wc[k := None] ! i = wc ! i" by simp
    have "\<forall>j\<in>set rest. fb ! j = CHR ''Y'' \<longrightarrow> gc ! j \<noteq> wc[k := None] ! i"
      using Cons.prems(2) same by simp
    from Cons.IH [OF r this] same show ?thesis by simp
  qed
qed

lemma yellow_on_match_rejected:
  assumes len: "length word = WORD_LENGTH" "length guess = WORD_LENGTH"
      "length feedback = WORD_LENGTH"
    and i: "i < WORD_LENGTH" and y: "feedback ! i = CHR ''Y''" and eq: "word ! i = guess ! i"
    and first: "\<forall>j<i. feedback ! j = CHR ''Y'' \<longrightarrow> guess ! j \<noteq> guess ! i"
  shows "is_word_still_possible word guess feedback = Inr False"
proof (cases "word = guess")
  case True
  then show ?thesis by (simp add: is_word_still_possible_def)
next
  case False
  define n where "n = WORD_LENGTH"
  define wc1 where "wc1 = map (\<lambda>i. if i \<in> set [0..<n] \<and> feedback ! i = CHR ''G'' then None
                                     else map Some word ! i) [0..<n]"
  define gc1 where "gc1 = map (\<lambda>i. if i \<in> set [0..<n] \<and> feedback ! i = CHR ''G'' then None
                                     else map Some guess ! i) [0..<n]"
  have l: "length word = n" "length guess = n" "length feedback = n" "i < n"
    using len i n_def by simp_all
  have green: "green_pass [0..<n] feedback (map Some word) (map Some guess) =
      (if \<forall>i<n. feedback ! i = CHR ''G'' \<longrightarrow> word ! i = guess ! i
       then Proceed (wc1, gc1) else Returned False)"
    using green_pass_eq [of "[0..<n]" feedback "map Some word" "map Some guess"] l
    by (simp add: wc1_def gc1_def)
  have lens: "length wc1 = n" "length gc1 = n" by (simp_all add: wc1_def gc1_def)
  have wi: "wc1 ! i = Some (word ! i)" and gi: "gc1 ! i = Some (guess ! i)"
    using l y by (simp_all add: wc1_def gc1_def)
  have gj: "gc1 ! j = Some (guess ! j)" if "j < n" "feedback ! j = CHR ''Y''" for j
    using that l by (simp add: gc1_def)
  have split: "[0..<n] = [0..<i] @ i # [Suc i..<n]"
  proof -
    have "[0..<i + (n - i)] = [0..<i] @ [i..<i + (n - i)]" by (rule upt_add_eq_append) simp
    moreover have "i + (n - i) = n" using l(4) by simp
    ultimately have "[0..<n] = [0..<i] @ [i..<n]" by simp
    then show ?thesis using upt_conv_Cons [OF l(4)] by simp
  qed
  have yellow: "yellow_pass [0..<n] feedback wc1 gc1 = Returned False"
  proof (cases "yellow_pass [0..<i] feedback wc1 gc1")
    case (Raised e)
    moreover have "yellow_pass [0..<i] feedback wc1 gc1 \<noteq> Raised e"
      using l lens by (intro yellow_pass_in_range) simp
    ultimately show ?thesis by simp
  next
    case (Returned b)
    with yellow_pass_not_True [of "[0..<i]" feedback wc1 gc1] have "\<not> b" by auto
    with Returned show ?thesis unfolding split yellow_pass_append by simp
  next
    case (Proceed wc')
    have "\<forall>j\<in>set [0..<i]. feedback ! j = CHR ''Y'' \<longrightarrow> gc1 ! j \<noteq> wc1 ! i"
    proof (intro ballI impI)
      fix j assume "j \<in> set [0..<i]" and yj: "feedback ! j = CHR ''Y''"
      then have "j < i" by simp
      with first yj have "guess ! j \<noteq> guess ! i" by simp
      moreover have "gc1 ! j = Some (guess ! j)" using gj \<open>j < i\<close> l(4) yj by simp
      ultimately show "gc1 ! j \<noteq> wc1 ! i" using wi eq by simp
    qed
    from yellow_pass_keeps_cell [OF Proceed this] wi eq gi
    have cell: "wc' ! i = gc1 ! i" by simp
    have "length wc' = n" using yellow_pass_length [OF Proceed] lens by simp
    then have "yellow_pass (i # [Suc i..<n]) feedback wc' gc1 = Returned False"
      using cell y l lens by simp
    with Proceed show ?thesis unfolding split yellow_pass_append by simp
  qed
  show ?thesis
  proof (cases "\<forall>i<n. feedback ! i = CHR ''G'' \<longrightarrow> word ! i = guess ! i")
    case True
    with green have "green_pass [0..<n] feedback (map Some word) (map Some guess) = Proceed (wc1, gc1)"
      by simp
    with yellow False show ?thesis
      unfolding is_word_still_possible_def n_def [symmetric] by simp
  next
    case no: False
    with green have "green_pass [0..<n] feedback (map Some word) (map Some guess) = Returned False"
      by simp
    with False show ?thesis
      unfolding is_word_still_possible_def n_def [symmetric] by simp
  qed
qed

subsection \<open>The filter\<close>

lemma keep_possible_subseq:
  "keep_possible ws guess fb = Inr kept \<Longrightarrow> subseq kept ws"
proof (induction ws arbitrary: kept)
  case Nil
  then show ?case by simp
next
  case (Cons w ws)
  from Cons.prems obtain b kept' where
    b: "possible_given w guess fb = Inr b" and
    k: "keep_possible ws guess fb = Inr kept'" and
    e: "kept = (if b then w # kept' else kept')"
    by (auto split: sum.splits)
  from Cons.IH [OF k] e show ?case by (simp add: list_emb_Cons)
qed

lemma keep_possible_accepts:
  "keep_possible ws guess fb = Inr kept \<Longrightarrow> w \<in> set kept \<Longrightarrow> possible_given w guess fb = Inr True"
proof (induction ws arbitrary: kept)
  case Nil
  then show ?case by simp
next
  case (Cons v ws)
  from Cons.prems(1) obtain b kept' where
    b: "possible_given v guess fb = Inr b" and
    k: "keep_possible ws guess fb = Inr kept'" and
    e: "kept = (if b then v # kept' else kept')"
    by (auto split: sum.splits)
  show ?case
  proof (cases "b \<and> w = v")
    case True
    with b show ?thesis by simp
  next
    case False
    with e Cons.prems(2) have "w \<in> set kept'" by (auto split: if_splits)
    with Cons.IH [OF k] show ?thesis by simp
  qed
qed

lemma keep_possible_all_accepted:
  "\<forall>w\<in>set ws. possible_given w guess fb = Inr True \<Longrightarrow> keep_possible ws guess fb = Inr ws"
  by (induction ws) simp_all

lemma keep_possible_eq_filter:
  "keep_possible ws guess fb = Inr kept \<Longrightarrow>
   kept = filter (\<lambda>w. possible_given w guess fb = Inr True) ws"
proof (induction ws arbitrary: kept)
  case Nil
  then show ?case by simp
next
  case (Cons v ws)
  from Cons.prems(1) obtain b kept' where
    b: "possible_given v guess fb = Inr b" and
    k: "keep_possible ws guess fb = Inr kept'" and
    e: "kept = (if b then v # kept' else kept')"
    by (auto split: sum.splits)
  from Cons.IH [OF k] b e show ?case by simp
qed

lemma keep_possible_total:
  assumes "\<forall>w\<in>set ws. length w = WORD_LENGTH" "length guess = WORD_LENGTH" "length f = WORD_LENGTH"
  shows "\<exists>kept. keep_possible ws guess (Some f) = Inr kept"
  using assms(1)
proof (induction ws)
  case Nil
  then show ?case by simp
next
  case (Cons w ws)
  then obtain kept where k: "keep_possible ws guess (Some f) = Inr kept" by auto
  from Cons.prems have "length w = WORD_LENGTH" by simp
  then obtain b where "is_word_still_possible w guess f = Inr b"
    using total_on_length_5 assms(2,3) by blast
  with k show ?case by (simp add: possible_given_def)
qed

lemma filter_returns_on_wellformed:
  assumes "\<forall>w\<in>set (possible_words s). length w = WORD_LENGTH"
    and "length (current_guess s) = WORD_LENGTH"
    and "last_feedback s = Some f" and "length f = WORD_LENGTH"
  shows "\<exists>s'. filter_possible_words s = Inr s'"
  using keep_possible_total [OF assms(1,2,4)] assms(3)
  by (auto simp: filter_possible_words_def)

subsection \<open>The loop\<close>

lemma make_guess_attempt [simp]: "attempt_number (make_guess api s) = attempt_number s"
  by (simp add: make_guess_def Let_def split: api_reply.splits)

lemma filter_attempt:
  "filter_possible_words s = Inr s' \<Longrightarrow> attempt_number s' = attempt_number s"
  by (auto simp: filter_possible_words_def split: sum.splits)

lemma visits_attempt_bounds:
  assumes "visits api s0 pt s" and "0 \<le> attempt_number s0" and "attempt_number s0 \<le> MAX_ATTEMPTS"
  shows "0 \<le> attempt_number s \<and> attempt_number s \<le> MAX_ATTEMPTS \<and>
         (pt \<in> {AfterGuess, AfterFilter, AfterPick} \<longrightarrow> attempt_number s < MAX_ATTEMPTS)"
  using assms
proof (induction rule: visits.induct)
  case (filtered s s')
  then show ?case using filter_attempt [of s s'] by simp
qed simp_all

lemma start_game_visits_aux:
  "visits api s0 AtLoopHead s \<Longrightarrow> start_game api s = Inr s' \<Longrightarrow> visits api s0 Finished s'"
proof (induction api s arbitrary: s' rule: start_game.induct)
  case (1 api s)
  show ?case
  proof (cases "game_status s = PLAYING \<and> attempt_number s < MAX_ATTEMPTS")
    case False
    with "1.prems" have "s' = s" by (subst (asm) start_game.simps) simp
    with False "1.prems"(1) show ?thesis by (auto intro: visits.guard_fails)
  next
    case True
    let ?s1 = "make_guess api s"
    have v1: "visits api s0 AfterGuess ?s1"
      using "1.prems"(1) True by (rule visits.guess_made)
    show ?thesis
    proof (cases "game_status ?s1 = PLAYING")
      case False
      with True "1.prems"(2) have "s' = ?s1"
        by (subst (asm) start_game.simps) (simp add: Let_def)
      with v1 False show ?thesis by (auto intro: visits.break_not_playing)
    next
      case playing: True
      from True playing "1.prems"(2) obtain s2 where
        f: "filter_possible_words ?s1 = Inr s2"
        by (subst (asm) start_game.simps) (auto simp: Let_def split: sum.splits)
      have v2: "visits api s0 AfterFilter s2"
        using v1 playing f by (rule visits.filtered)
      show ?thesis
      proof (cases "possible_words s2 = []")
        case True
        with \<open>game_status s = PLAYING \<and> attempt_number s < MAX_ATTEMPTS\<close> playing f "1.prems"(2)
        have "s' = s2\<lparr>game_status := LOST\<rparr>"
          by (subst (asm) start_game.simps) (simp add: Let_def)
        with v2 True show ?thesis by (auto intro: visits.break_stumped)
      next
        case False
        let ?s3 = "s2\<lparr>current_guess := hd (possible_words s2),
                       attempt_number := attempt_number s2 + 1\<rparr>"
        have "visits api s0 AfterPick (s2\<lparr>current_guess := hd (possible_words s2)\<rparr>)"
          using v2 False by (rule visits.picked)
        then have v3: "visits api s0 AtLoopHead ?s3"
          using visits.incremented by fastforce
        have "start_game api s = start_game api ?s3"
          using \<open>game_status s = PLAYING \<and> attempt_number s < MAX_ATTEMPTS\<close> playing f False
          by (subst start_game.simps) (simp add: Let_def)
        with "1.prems"(2) have r: "start_game api ?s3 = Inr s'" by simp
        show ?thesis
          using "1.IH" [OF \<open>game_status s = PLAYING \<and> attempt_number s < MAX_ATTEMPTS\<close> refl _ f False v3 r]
            playing by simp
      qed
    qed
  qed
qed

lemma start_game_visits:
  "start_game api s0 = Inr s' \<Longrightarrow> visits api s0 Finished s'"
  using start_game_visits_aux [OF visits.at_start] .

subsection \<open>A sample game\<close>

text \<open>
  The word list is crane, moody; the first guess is salet. A service that answers RRRRR
  leaves moody; with the list crane alone it leaves nothing.
\<close>

lemma all_green: "replicate WORD_LENGTH (CHR ''G'') = ''GGGGG''"
  by (simp add: WORD_LENGTH_def eval_nat_numeral)

lemma demo_guess:
  "make_guess (\<lambda>sent pid g. Feedback (Some ''RRRRR'')) (init_bot ''hema'' ws) =
   (init_bot ''hema'' ws)\<lparr>guesses_sent := [''salet''], last_feedback := Some ''RRRRR''\<rparr>"
  by (simp add: make_guess_def init_bot_def OPTIMAL_FIRST_GUESS_def all_green Let_def)
     (simp add: WORD_LENGTH_def)

lemma demo_stumped:
  "filter_possible_words
     (make_guess (\<lambda>sent pid g. Feedback (Some ''RRRRR'')) (init_bot ''hema'' [''crane''])) =
   Inr ((init_bot ''hema'' [''crane''])
          \<lparr>guesses_sent := [''salet''], last_feedback := Some ''RRRRR'', possible_words := []\<rparr>)"
  unfolding demo_guess
  by (simp add: filter_possible_words_def possible_given_def is_word_still_possible_def
      range_WORD_LENGTH init_bot_def OPTIMAL_FIRST_GUESS_def)

lemma demo_filter:
  "filter_possible_words
     ((init_bot ''hema'' [''crane'', ''moody''])\<lparr>last_feedback := Some ''RRRRR''\<rparr>) =
   Inr ((init_bot ''hema'' [''crane'', ''moody''])
          \<lparr>last_feedback := Some ''RRRRR'', possible_words := [''moody'']\<rparr>)"
  by (simp add: filter_possible_words_def possible_given_def is_word_still_possible_def
      range_WORD_LENGTH init_bot_def OPTIMAL_FIRST_GUESS_def)

lemma demo_round:
  "visits (\<lambda>sent pid g. Feedback (Some ''RRRRR'')) (init_bot ''hema'' [''crane'', ''moody''])
     AtLoopHead
     ((init_bot ''hema'' [''crane'', ''moody''])
        \<lparr>guesses_sent := [''salet''], last_feedback := Some ''RRRRR'',
         possible_words := [''moody''], current_guess := ''moody'', attempt_number := 1\<rparr>)"
proof -
  let ?api = "\<lambda>(sent :: string list) (pid :: string) (g :: string). Feedback (Some ''RRRRR'')"
  let ?s0 = "init_bot ''hema'' [''crane'', ''moody'']"
  let ?s1 = "?s0\<lparr>guesses_sent := [''salet''], last_feedback := Some ''RRRRR''\<rparr>"
  let ?s2 = "?s1\<lparr>possible_words := [''moody'']\<rparr>"
  have v0: "visits ?api ?s0 AtLoopHead ?s0" by (rule visits.at_start)
  have "visits ?api ?s0 AfterGuess (make_guess ?api ?s0)"
    using v0 by (rule visits.guess_made) (simp add: init_bot_def MAX_ATTEMPTS_def)
  then have v1: "visits ?api ?s0 AfterGuess ?s1" unfolding demo_guess .
  have f: "filter_possible_words ?s1 = Inr ?s2"
    by (simp add: filter_possible_words_def possible_given_def is_word_still_possible_def
        range_WORD_LENGTH init_bot_def OPTIMAL_FIRST_GUESS_def)
  have v2: "visits ?api ?s0 AfterFilter ?s2"
    using v1 _ f by (rule visits.filtered) (simp add: init_bot_def)
  have v3: "visits ?api ?s0 AfterPick (?s2\<lparr>current_guess := hd (possible_words ?s2)\<rparr>)"
    using v2 by (rule visits.picked) simp
  from visits.incremented [OF v3] show ?thesis
    by (simp add: init_bot_def)
qed

section \<open>The claims\<close>

text \<open>
  C1, as amended. For a word and a guess of length 5 that differ: if the reference
  scoring of the guess against the word gives the feedback, the check answers True.
  Conversely, if the check answers True for a feedback of length 5 over G, Y, R in which
  every position where word and guess agree is marked G and no Grey position of a letter
  comes before a Yellow position of the same letter, then the reference scoring gives
  exactly that feedback.
\<close>

theorem possible_vs_reference_score:
  assumes "length word = WORD_LENGTH" and "length guess = WORD_LENGTH" and "word \<noteq> guess"
  shows "(reference_score guess word = feedback \<longrightarrow>
            is_word_still_possible word guess feedback = Inr True) \<and>
         (length feedback = WORD_LENGTH \<and>
          set feedback \<subseteq> {CHR ''G'', CHR ''Y'', CHR ''R''} \<and>
          (\<forall>i<WORD_LENGTH. word ! i = guess ! i \<longrightarrow> feedback ! i = CHR ''G'') \<and>
          (\<forall>i j. i < j \<and> j < WORD_LENGTH \<and> feedback ! i = CHR ''R'' \<and> feedback ! j = CHR ''Y''
                  \<longrightarrow> guess ! i \<noteq> guess ! j) \<and>
          is_word_still_possible word guess feedback = Inr True \<longrightarrow>
            reference_score guess word = feedback)"
proof -
  define n where "n = WORD_LENGTH"
  define wc1 where "wc1 = map (\<lambda>i. if i \<in> set [0..<n] \<and> feedback ! i = CHR ''G'' then None
                                     else map Some word ! i) [0..<n]"
  define gc1 where "gc1 = map (\<lambda>i. if i \<in> set [0..<n] \<and> feedback ! i = CHR ''G'' then None
                                     else map Some guess ! i) [0..<n]"
  define pool where "pool = mset (map snd (filter (\<lambda>(g, s). g \<noteq> s) (zip guess word)))"
  have lw: "length word = n" and lg: "length guess = n" using assms n_def by simp_all
  have score: "reference_score guess word = assign_yellows (zip guess word) pool"
    by (simp add: reference_score_def pool_def)
  have possible: "is_word_still_possible word guess feedback =
      (case green_pass [0..<n] feedback (map Some word) (map Some guess) of
         Raised e \<Rightarrow> Inl e
       | Returned b \<Rightarrow> Inr b
       | Proceed (word_chars, guess_chars) \<Rightarrow>
           (case yellow_pass [0..<n] feedback word_chars guess_chars of
              Raised e \<Rightarrow> Inl e
            | Returned b \<Rightarrow> Inr b
            | Proceed word_chars' \<Rightarrow>
                (case grey_pass [0..<n] feedback word_chars' guess_chars of
                   Raised e \<Rightarrow> Inl e
                 | Returned b \<Rightarrow> Inr b
                 | Proceed u \<Rightarrow> Inr True)))"
    unfolding n_def is_word_still_possible_def using assms(3) by simp
  have green: "green_pass [0..<n] feedback (map Some word) (map Some guess) =
      (if \<forall>i<n. feedback ! i = CHR ''G'' \<longrightarrow> word ! i = guess ! i
       then Proceed (wc1, gc1) else Returned False)"
    if "length feedback = n"
    using green_pass_eq [of "[0..<n]" feedback "map Some word" "map Some guess"] that lw lg
    by (simp add: wc1_def gc1_def)
  have lwc1: "length wc1 = n" and lgc1: "length gc1 = n" by (simp_all add: wc1_def gc1_def)
  have inv1: "\<forall>i<n. wc1 ! i = None \<or> wc1 ! i = Some (word ! i)"
    using lw by (simp add: wc1_def)
  have gc1: "\<forall>i<n. feedback ! i \<noteq> CHR ''G'' \<longrightarrow> gc1 ! i = Some (guess ! i)"
    using lg by (simp add: gc1_def)
  have live1: "live wc1 = pool"
    if "length feedback = n" "\<forall>i<n. feedback ! i = CHR ''G'' \<longleftrightarrow> guess ! i = word ! i"
    unfolding wc1_def pool_def cells_after_green [OF that(1) lw lg that(2)]
    by (rule live_after_green)
  have grey: "grey_pass [0..<n] feedback wc' gc1 =
      (if \<exists>i<n. feedback ! i = CHR ''R'' \<and> guess ! i \<in># live wc' then Returned False else Proceed ())"
    if "length feedback = n" for wc'
  proof -
    have "(\<exists>i\<in>set [0..<n]. feedback ! i = CHR ''R'' \<and> gc1 ! i \<in> set wc') \<longleftrightarrow>
          (\<exists>i<n. feedback ! i = CHR ''R'' \<and> guess ! i \<in># live wc')"
      using gc1 by (auto simp: live_mem)
    then show ?thesis
      using grey_pass_eq [of "[0..<n]" feedback gc1 wc'] that lgc1 by simp
  qed
  have forward: "is_word_still_possible word guess feedback = Inr True"
    if sc: "reference_score guess word = feedback"
  proof -
    have lf: "length feedback = n" using sc [symmetric] lw lg by (simp add: score)
    have greens: "\<forall>i<n. feedback ! i = CHR ''G'' \<longleftrightarrow> guess ! i = word ! i"
      using assign_yellows_green [of _ "zip guess word" pool] lw lg sc [symmetric, unfolded score]
      by simp
    have g: "green_pass [0..<n] feedback (map Some word) (map Some guess) = Proceed (wc1, gc1)"
      using green [OF lf] greens by auto
    have "assign_yellows (drop 0 (zip guess word)) (live wc1) = drop 0 feedback"
      using sc score live1 [OF lf greens] by simp
    from yellow_forward [OF lf lgc1 lw lg _ _ lwc1 inv1 this] gc1
    obtain wc' where y: "yellow_pass [0..<n] feedback wc1 gc1 = Proceed wc'"
      and r: "\<forall>i. 0 \<le> i \<and> i < n \<and> feedback ! i = CHR ''R'' \<longrightarrow> guess ! i \<notin># live wc'"
      by auto
    have "grey_pass [0..<n] feedback wc' gc1 = Proceed ()"
      using grey [OF lf, of wc'] r by auto
    with g y show ?thesis by (simp add: possible)
  qed
  have backward: "reference_score guess word = feedback"
    if lf: "length feedback = n"
      and sy: "set feedback \<subseteq> {CHR ''G'', CHR ''Y'', CHR ''R''}"
      and h1: "\<forall>i<n. word ! i = guess ! i \<longrightarrow> feedback ! i = CHR ''G''"
      and h2: "\<forall>i j. i < j \<and> j < n \<and> feedback ! i = CHR ''R'' \<and> feedback ! j = CHR ''Y''
                  \<longrightarrow> guess ! i \<noteq> guess ! j"
      and ok: "is_word_still_possible word guess feedback = Inr True"
  proof -
    have c: "(case green_pass [0..<n] feedback (map Some word) (map Some guess) of
         Raised e \<Rightarrow> Inl e
       | Returned b \<Rightarrow> Inr b
       | Proceed (word_chars, guess_chars) \<Rightarrow>
           (case yellow_pass [0..<n] feedback word_chars guess_chars of
              Raised e \<Rightarrow> Inl e
            | Returned b \<Rightarrow> Inr b
            | Proceed word_chars' \<Rightarrow>
                (case grey_pass [0..<n] feedback word_chars' guess_chars of
                   Raised e \<Rightarrow> Inl e
                 | Returned b \<Rightarrow> Inr b
                 | Proceed u \<Rightarrow> Inr True))) = Inr True"
      using ok unfolding possible .
    have g': "\<forall>i<n. feedback ! i = CHR ''G'' \<longrightarrow> word ! i = guess ! i"
    proof (rule ccontr)
      assume "\<not> (\<forall>i<n. feedback ! i = CHR ''G'' \<longrightarrow> word ! i = guess ! i)"
      then have "green_pass [0..<n] feedback (map Some word) (map Some guess) = Returned False"
        using green [OF lf] by simp
      with c show False by simp
    qed
    have g: "green_pass [0..<n] feedback (map Some word) (map Some guess) = Proceed (wc1, gc1)"
      using green [OF lf] g' by simp
    have c2: "(case yellow_pass [0..<n] feedback wc1 gc1 of
              Raised e \<Rightarrow> Inl e
            | Returned b \<Rightarrow> Inr b
            | Proceed word_chars' \<Rightarrow>
                (case grey_pass [0..<n] feedback word_chars' gc1 of
                   Raised e \<Rightarrow> Inl e
                 | Returned b \<Rightarrow> Inr b
                 | Proceed u \<Rightarrow> Inr True)) = Inr True"
      using c unfolding g by simp
    have greens: "\<forall>i<n. feedback ! i = CHR ''G'' \<longleftrightarrow> guess ! i = word ! i"
    proof (intro allI impI iffI)
      fix i assume "i < n" "feedback ! i = CHR ''G''"
      with g' show "guess ! i = word ! i" by simp
    next
      fix i assume "i < n" "guess ! i = word ! i"
      with h1 show "feedback ! i = CHR ''G''" by simp
    qed
    have sym: "\<forall>i<n. feedback ! i = CHR ''G'' \<or> feedback ! i = CHR ''Y'' \<or> feedback ! i = CHR ''R''"
    proof (intro allI impI)
      fix i assume "i < n"
      then have "feedback ! i \<in> set feedback" using lf by simp
      with sy show "feedback ! i = CHR ''G'' \<or> feedback ! i = CHR ''Y'' \<or> feedback ! i = CHR ''R''"
        by auto
    qed
    obtain wc' where y: "yellow_pass [0..<n] feedback wc1 gc1 = Proceed wc'"
    proof (cases "yellow_pass [0..<n] feedback wc1 gc1")
      case (Raised e)
      with c2 show ?thesis by simp
    next
      case (Returned b)
      with c2 have "b" by simp
      with Returned yellow_pass_not_True [of "[0..<n]" feedback wc1 gc1] show ?thesis by simp
    next
      case (Proceed wc')
      then show ?thesis by (rule that)
    qed
    have c3: "(case grey_pass [0..<n] feedback wc' gc1 of
                   Raised e \<Rightarrow> Inl e
                 | Returned b \<Rightarrow> Inr b
                 | Proceed u \<Rightarrow> Inr True) = Inr True"
      using c2 unfolding y by simp
    have r: "\<forall>i. 0 \<le> i \<and> i < n \<and> feedback ! i = CHR ''R'' \<longrightarrow> guess ! i \<notin># live wc'"
    proof (rule ccontr)
      assume "\<not> (\<forall>i. 0 \<le> i \<and> i < n \<and> feedback ! i = CHR ''R'' \<longrightarrow> guess ! i \<notin># live wc')"
      then have "\<exists>i<n. feedback ! i = CHR ''R'' \<and> guess ! i \<in># live wc'" by blast
      then have "grey_pass [0..<n] feedback wc' gc1 = Returned False"
        using grey [OF lf, of wc'] by simp
      with c3 show False by simp
    qed
    have "assign_yellows (drop 0 (zip guess word)) (live wc1) = drop 0 feedback"
      using yellow_converse [OF lf lgc1 lw lg gc1 sym greens h2 _ lwc1 y r] by simp
    then show ?thesis using score live1 [OF lf greens] by simp
  qed
  show ?thesis
  proof (intro conjI impI)
    assume "reference_score guess word = feedback"
    then show "is_word_still_possible word guess feedback = Inr True" by (rule forward)
  next
    assume a: "length feedback = WORD_LENGTH \<and>
          set feedback \<subseteq> {CHR ''G'', CHR ''Y'', CHR ''R''} \<and>
          (\<forall>i<WORD_LENGTH. word ! i = guess ! i \<longrightarrow> feedback ! i = CHR ''G'') \<and>
          (\<forall>i j. i < j \<and> j < WORD_LENGTH \<and> feedback ! i = CHR ''R'' \<and> feedback ! j = CHR ''Y''
                  \<longrightarrow> guess ! i \<noteq> guess ! j) \<and>
          is_word_still_possible word guess feedback = Inr True"
    show "reference_score guess word = feedback"
    proof (rule backward)
      show "length feedback = n" using a n_def by simp
      show "set feedback \<subseteq> {CHR ''G'', CHR ''Y'', CHR ''R''}" using a by blast
      show "\<forall>i<n. word ! i = guess ! i \<longrightarrow> feedback ! i = CHR ''G''"
        using a unfolding n_def by blast
      show "\<forall>i j. i < j \<and> j < n \<and> feedback ! i = CHR ''R'' \<and> feedback ! j = CHR ''Y''
                  \<longrightarrow> guess ! i \<noteq> guess ! j"
        using a unfolding n_def by blast
      show "is_word_still_possible word guess feedback = Inr True" using a by blast
    qed
  qed
qed

theorem possible_vs_reference_score_witness:
  "length ''crane'' = WORD_LENGTH \<and> length ''eerie'' = WORD_LENGTH \<and> ''crane'' \<noteq> ''eerie'' \<and>
   reference_score ''eerie'' ''crane'' = ''RRYRG'' \<and>
   is_word_still_possible ''crane'' ''eerie'' ''RRYRG'' = Inr True"
  using possible_vs_reference_score [of "''crane''" "''eerie''" "''RRYRG''"]
  by (simp add: WORD_LENGTH_def reference_score_def)

text \<open>
  C1 as stated (True if and only if the reference scoring gives the feedback) fails: for
  the word abbey and the guess eerie the check accepts RYRRR, while the reference scoring
  of eerie against abbey is YRRRR. The Grey pass runs after every Yellow has taken its
  letter, so it does not see which of the two e came first.
\<close>

theorem grey_before_yellow_accepted:
  "\<not> (is_word_still_possible ''abbey'' ''eerie'' ''RYRRR'' = Inr True \<longleftrightarrow>
       reference_score ''eerie'' ''abbey'' = ''RYRRR'')"
  by (simp add: is_word_still_possible_def range_WORD_LENGTH reference_score_def)

text \<open>
  C2 (a Yellow at a position where word and guess agree makes the check answer False)
  does not hold of the program: for the word jewel, the guess eerie and the feedback
  YYRRR, position 1 is Yellow and both words have e there, yet the check answers True.
  The Yellow at position 0 overwrites the e of jewel at position 1, so the comparison
  \<^verbatim>\<open>word_chars[i] == guess_chars[i]\<close> at position 1 sees \<^verbatim>\<open>None\<close>. The feedback
  YYRRR is what the secret sheet gives for eerie; jewel would have given YGRRR.
\<close>

theorem yellow_on_matching_position_accepted:
  "''jewel'' ! 1 = ''eerie'' ! 1 \<and> ''YYRRR'' ! 1 = CHR ''Y'' \<and>
   is_word_still_possible ''jewel'' ''eerie'' ''YYRRR'' = Inr True \<and>
   reference_score ''eerie'' ''sheet'' = ''YYRRR'' \<and>
   reference_score ''eerie'' ''jewel'' = ''YGRRR''"
  by (simp add: is_word_still_possible_def range_WORD_LENGTH reference_score_def)

text \<open>
  C3: for every guess and every feedback string, the check of the guess against itself
  answers False: the word just played is never kept as a candidate.
\<close>

theorem self_exclusion: "is_word_still_possible guess guess feedback = Inr False"
  by (simp add: is_word_still_possible_def)

text \<open>
  C4: whenever filter_possible_words returns, the candidate list it leaves is a
  subsequence of the list it started from, and so is no longer than it.
\<close>

theorem filter_is_subsequence:
  "filter_possible_words s = Inr s' \<Longrightarrow>
     subseq (possible_words s') (possible_words s) \<and>
     length (possible_words s') \<le> length (possible_words s)"
proof -
  assume "filter_possible_words s = Inr s'"
  then obtain kept where
    k: "keep_possible (possible_words s) (current_guess s) (last_feedback s) = Inr kept"
    and s': "s' = s\<lparr>possible_words := kept\<rparr>"
    by (auto simp: filter_possible_words_def split: sum.splits)
  from keep_possible_subseq [OF k] s'
  have sub: "subseq (possible_words s') (possible_words s)" by simp
  then have "length (possible_words s') \<le> length (possible_words s)"
    by (rule list_emb_length)
  with sub show ?thesis by simp
qed

theorem filter_is_subsequence_witness:
  "filter_possible_words
     ((init_bot ''hema'' [''crane'', ''moody''])\<lparr>last_feedback := Some ''RRRRR''\<rparr>) =
   Inr ((init_bot ''hema'' [''crane'', ''moody''])
          \<lparr>last_feedback := Some ''RRRRR'', possible_words := [''moody'']\<rparr>) \<and>
   subseq [''moody''] [''crane'', ''moody''] \<and>
   length [''moody''] \<le> length [''crane'', ''moody'']"
  using filter_is_subsequence [OF demo_filter] demo_filter
  by (simp add: init_bot_def)

text \<open>
  C5: filtering is idempotent. The list filter_possible_words leaves holds exactly the
  words the check accepts for the current guess and the last feedback, and filtering
  that state again with the same guess and feedback returns it unchanged.
\<close>

theorem filter_is_idempotent:
  "filter_possible_words s = Inr s' \<Longrightarrow>
     filter_possible_words s' = Inr s' \<and>
     possible_words s' =
       filter (\<lambda>w. possible_given w (current_guess s) (last_feedback s) = Inr True)
         (possible_words s)"
proof -
  assume "filter_possible_words s = Inr s'"
  then obtain kept where
    k: "keep_possible (possible_words s) (current_guess s) (last_feedback s) = Inr kept"
    and s': "s' = s\<lparr>possible_words := kept\<rparr>"
    by (auto simp: filter_possible_words_def split: sum.splits)
  have "\<forall>w\<in>set kept. possible_given w (current_guess s) (last_feedback s) = Inr True"
    using keep_possible_accepts [OF k] by blast
  then have "keep_possible kept (current_guess s) (last_feedback s) = Inr kept"
    by (rule keep_possible_all_accepted)
  then have "filter_possible_words s' = Inr s'"
    by (simp add: filter_possible_words_def s')
  moreover have "possible_words s' =
       filter (\<lambda>w. possible_given w (current_guess s) (last_feedback s) = Inr True)
         (possible_words s)"
    using keep_possible_eq_filter [OF k] s' by simp
  ultimately show ?thesis by simp
qed

theorem filter_is_idempotent_witness:
  "filter_possible_words
     ((init_bot ''hema'' [''crane'', ''moody''])\<lparr>last_feedback := Some ''RRRRR''\<rparr>) =
   Inr ((init_bot ''hema'' [''crane'', ''moody''])
          \<lparr>last_feedback := Some ''RRRRR'', possible_words := [''moody'']\<rparr>) \<and>
   filter_possible_words
     ((init_bot ''hema'' [''crane'', ''moody''])
          \<lparr>last_feedback := Some ''RRRRR'', possible_words := [''moody'']\<rparr>) =
   Inr ((init_bot ''hema'' [''crane'', ''moody''])
          \<lparr>last_feedback := Some ''RRRRR'', possible_words := [''moody'']\<rparr>)"
  using filter_is_idempotent [OF demo_filter] demo_filter
  by simp

text \<open>
  C6: in a round that starts in a playing state with attempts left, if the service
  answers with no feedback, an empty feedback or one whose length is not WORD_LENGTH,
  start_game returns with status ERROR, and the only word sent from that state on is
  the current guess of that round; the attempt counter and the candidates are untouched.
\<close>

theorem malformed_feedback_is_error:
  assumes "game_status s = PLAYING" and "attempt_number s < MAX_ATTEMPTS"
    and "current_guess s \<noteq> []"
    and "api (guesses_sent s) (player_id s) (current_guess s) = Feedback fb"
    and "fb = None \<or> fb = Some [] \<or> (\<exists>f. fb = Some f \<and> length f \<noteq> WORD_LENGTH)"
  shows "\<exists>s'. start_game api s = Inr s' \<and> game_status s' = ERROR \<and>
           guesses_sent s' = guesses_sent s @ [current_guess s] \<and>
           attempt_number s' = attempt_number s \<and>
           possible_words s' = possible_words s"
proof -
  let ?s1 = "s\<lparr>guesses_sent := guesses_sent s @ [current_guess s], last_feedback := fb,
               game_status := ERROR\<rparr>"
  have bad: "fb = None \<or> fb = Some [] \<or> length (the fb) \<noteq> WORD_LENGTH"
    using assms(5) by auto
  have mg: "make_guess api s = ?s1"
    using assms(3,4) bad by (simp add: make_guess_def Let_def)
  have "start_game api s = Inr ?s1"
    using assms(1,2) by (subst start_game.simps) (simp add: mg)
  then show ?thesis by simp
qed

theorem malformed_feedback_is_error_witness:
  "\<exists>s'. start_game (\<lambda>sent pid g. Feedback (Some ''GGGG'')) (init_bot ''hema'' [''crane'', ''moody''])
          = Inr s' \<and>
        game_status s' = ERROR \<and> guesses_sent s' = [''salet''] \<and> attempt_number s' = 0 \<and>
        possible_words s' = [''crane'', ''moody'']"
  using malformed_feedback_is_error
    [of "init_bot ''hema'' [''crane'', ''moody'']" "\<lambda>sent pid g. Feedback (Some ''GGGG'')"
        "Some ''GGGG''"]
  by (simp add: init_bot_def MAX_ATTEMPTS_def WORD_LENGTH_def OPTIMAL_FIRST_GUESS_def)

text \<open>
  C7: in a round that starts in a playing state with attempts left, if the feedback has
  length WORD_LENGTH, is not all Green, and filtering leaves no candidate, start_game
  returns with status LOST, not ERROR.
\<close>

theorem stumped_is_lost:
  assumes "game_status s = PLAYING" and "attempt_number s < MAX_ATTEMPTS"
    and "current_guess s \<noteq> []"
    and "api (guesses_sent s) (player_id s) (current_guess s) = Feedback (Some f)"
    and "length f = WORD_LENGTH" and "f \<noteq> replicate WORD_LENGTH (CHR ''G'')"
    and "filter_possible_words (make_guess api s) = Inr s2"
    and "possible_words s2 = []"
  shows "\<exists>s'. start_game api s = Inr s' \<and> game_status s' = LOST \<and> game_status s' \<noteq> ERROR \<and>
           guesses_sent s' = guesses_sent s @ [current_guess s]"
proof -
  have ne: "f \<noteq> []" using assms(5) by (auto simp: WORD_LENGTH_def)
  have mg: "make_guess api s =
      s\<lparr>guesses_sent := guesses_sent s @ [current_guess s], last_feedback := Some f\<rparr>"
    using assms(3,4,5,6) ne by (simp add: make_guess_def Let_def)
  then have playing: "game_status (make_guess api s) = PLAYING"
    using assms(1) by simp
  have sent: "guesses_sent s2 = guesses_sent s @ [current_guess s]"
    using assms(7) mg by (auto simp: filter_possible_words_def split: sum.splits)
  have "start_game api s = Inr (s2\<lparr>game_status := LOST\<rparr>)"
    using assms(1,2,7,8) playing by (subst start_game.simps) (simp add: Let_def)
  then show ?thesis using sent by simp
qed

theorem stumped_is_lost_witness:
  "\<exists>s'. start_game (\<lambda>sent pid g. Feedback (Some ''RRRRR'')) (init_bot ''hema'' [''crane'']) = Inr s' \<and>
        game_status s' = LOST \<and> game_status s' \<noteq> ERROR \<and> guesses_sent s' = [''salet'']"
  using stumped_is_lost
    [of "init_bot ''hema'' [''crane'']" "\<lambda>sent pid g. Feedback (Some ''RRRRR'')" "''RRRRR''",
     OF _ _ _ _ _ _ demo_stumped]
  by (simp add: init_bot_def MAX_ATTEMPTS_def all_green OPTIMAL_FIRST_GUESS_def)
     (simp add: WORD_LENGTH_def)

text \<open>
  C8: there are a word, a guess and a feedback of length 5 in which one letter of the guess
  is Green at one position and Grey at another, and the check answers True: for the word
  crane and the guess eerie, the letter e is Green at position 4 and Grey at position 0.
\<close>

theorem green_and_grey_same_letter:
  "\<exists>word guess feedback i j.
     length word = 5 \<and> length guess = 5 \<and> length feedback = 5 \<and>
     i < 5 \<and> j < 5 \<and> guess ! i = guess ! j \<and>
     feedback ! i = CHR ''G'' \<and> feedback ! j = CHR ''R'' \<and>
     is_word_still_possible word guess feedback = Inr True"
proof -
  have "is_word_still_possible ''crane'' ''eerie'' ''RRYRG'' = Inr True"
    by (simp add: is_word_still_possible_def range_WORD_LENGTH)
  then have "length ''crane'' = 5 \<and> length ''eerie'' = 5 \<and> length ''RRYRG'' = 5 \<and>
     (4::nat) < 5 \<and> (0::nat) < 5 \<and> ''eerie'' ! 4 = ''eerie'' ! 0 \<and>
     ''RRYRG'' ! 4 = CHR ''G'' \<and> ''RRYRG'' ! 0 = CHR ''R'' \<and>
     is_word_still_possible ''crane'' ''eerie'' ''RRYRG'' = Inr True"
    by simp
  then show ?thesis by blast
qed

text \<open>
  C9: in every state a game started from a fresh bot passes through, at any program
  point of the loop, the attempt counter is at least 0 and at most MAX_ATTEMPTS.
\<close>

theorem attempt_number_bounded:
  "visits api (init_bot pid words) pt s \<Longrightarrow>
   0 \<le> attempt_number s \<and> attempt_number s \<le> MAX_ATTEMPTS"
  using visits_attempt_bounds [of api "init_bot pid words" pt s]
  by (simp add: init_bot_def MAX_ATTEMPTS_def)

theorem attempt_number_bounded_witness:
  "visits (\<lambda>sent pid g. Feedback (Some ''RRRRR'')) (init_bot ''hema'' [''crane'', ''moody''])
     AtLoopHead
     ((init_bot ''hema'' [''crane'', ''moody''])
        \<lparr>guesses_sent := [''salet''], last_feedback := Some ''RRRRR'',
         possible_words := [''moody''], current_guess := ''moody'', attempt_number := 1\<rparr>) \<and>
   (0::int) \<le> 1 \<and> 1 \<le> MAX_ATTEMPTS"
  using attempt_number_bounded [OF demo_round] demo_round
  by simp

text \<open>
  C10: the check never raises the ValueError of \<^verbatim>\<open>list.index\<close>, whatever its
  arguments, because the lookup comes after the membership test; and on a word, a guess
  and a feedback of length WORD_LENGTH it raises nothing at all and returns a boolean.
\<close>

theorem index_lookup_never_fails:
  "is_word_still_possible word guess feedback \<noteq> Inl ValueError \<and>
   (length word = WORD_LENGTH \<and> length guess = WORD_LENGTH \<and> length feedback = WORD_LENGTH \<longrightarrow>
      (\<exists>b. is_word_still_possible word guess feedback = Inr b))"
  using no_ValueError total_on_length_5 by blast

theorem index_lookup_never_fails_witness:
  "length ''jewel'' = WORD_LENGTH \<and> length ''eerie'' = WORD_LENGTH \<and>
   length ''YYRRR'' = WORD_LENGTH \<and>
   is_word_still_possible ''jewel'' ''eerie'' ''YYRRR'' \<noteq> Inl ValueError \<and>
   (\<exists>b. is_word_still_possible ''jewel'' ''eerie'' ''YYRRR'' = Inr b)"
  using index_lookup_never_fails [of "''jewel''" "''eerie''" "''YYRRR''"]
  by (simp add: WORD_LENGTH_def)

end
